theory Spec2Isabelle
  imports Main "HOL-Library.AList"
begin

section \<open>Data model of \<open>src/midi_processing.py\<close>\<close>

text \<open>
  Python exceptions the modelled functions can raise by themselves: integer floor division
  by zero raises \<open>ZeroDivisionError\<close>, and \<open>range\<close> with a zero step raises
  \<open>ValueError\<close>. The code defines no exception class of its own.
\<close>

datatype error = ZeroDivisionError | ValueError

text \<open>
  A message of the MIDI library, reduced to the four attributes the code reads or writes:
  its type, \<open>note\<close>, \<open>velocity\<close> and \<open>time\<close> (the delta time in ticks). Python integers are
  unbounded, hence \<open>int\<close>. The message constructor belongs to the MIDI library, not to this
  repository, and is modelled as the plain record constructor: the library's own checks on
  its arguments (a note number must lie in 0..127) are not part of the model, so a
  statement about the synthesizer speaks of the track the code builds from note numbers
  the library accepts.
\<close>

datatype message_type = Note_on | Note_off | Other

record message =
  msg_type :: message_type
  msg_note :: int
  msg_velocity :: int
  msg_time :: int

text \<open>A token is a note number or \<open>None\<close> (a rest).\<close>

type_synonym token = "int option"

text \<open>Python's \<open>a // b\<close>: floor division, raising on a zero divisor.\<close>

definition py_floordiv :: "int \<Rightarrow> int \<Rightarrow> error + int" where
  "py_floordiv a b = (if b = 0 then Inl ZeroDivisionError else Inr (a div b))"

text \<open>
  Python's \<open>range(start, stop, step)\<close> as the list of its values: ascending for a
  positive step, descending for a negative one, \<open>ValueError\<close> for step zero.
\<close>

definition py_range :: "int \<Rightarrow> int \<Rightarrow> int \<Rightarrow> error + int list" where
  "py_range start stop stp =
     (if stp = 0 then Inl ValueError
      else if 0 < stp
        then Inr (map (\<lambda>k. start + int k * stp) [0..<nat ((stop - start + stp - 1) div stp)])
        else Inr (map (\<lambda>k. start + int k * stp) [0..<nat ((start - stop - stp - 1) div (- stp))]))"

text \<open>
  Python's slice \<open>xs[a:b]\<close> for integer bounds: a negative bound counts from the end, and
  both bounds are clipped to the list.
\<close>

definition py_slice :: "'a list \<Rightarrow> int \<Rightarrow> int \<Rightarrow> 'a list" where
  "py_slice xs a b =
     (let n = int (length xs);
          lo = (if a < 0 then max 0 (a + n) else min a n);
          hi = (if b < 0 then max 0 (b + n) else min b n)
      in take (nat (hi - lo)) (drop (nat lo) xs))"

section \<open>\<open>generate_midi_from_tokens\<close>\<close>

text \<open>
  The state of the loop over the tokens: the track built so far, \<open>current_time\<close> and
  \<open>previous_token\<close>.
\<close>

record synth_state =
  track :: "message list"
  current_time :: int
  previous_token :: token

text \<open>
  The list \<open>events\<close> built at a transition: a \<open>note_off\<close> for the previous token if it is a
  note, then a \<open>note_on\<close> for the current token if it is a note.
\<close>

definition transition_events :: "token \<Rightarrow> token \<Rightarrow> (message_type \<times> int) list" where
  "transition_events prev tok =
     (case prev of None \<Rightarrow> [] | Some p \<Rightarrow> [(Note_off, p)]) @
     (case tok of None \<Rightarrow> [] | Some n \<Rightarrow> [(Note_on, n)])"

text \<open>
  The body of the inner loop over \<open>enumerate(events)\<close>: the first event carries
  \<open>delta_time\<close>, the others 0; a \<open>note_off\<close> has velocity 0, a \<open>note_on\<close> velocity 64.
\<close>

definition event_message :: "int \<Rightarrow> nat \<times> message_type \<times> int \<Rightarrow> message" where
  "event_message delta_time = (\<lambda>(idx, event_type, n).
     let t = (if idx = 0 then delta_time else 0)
     in if event_type = Note_off
        then \<lparr>msg_type = Note_off, msg_note = n, msg_velocity = 0, msg_time = t\<rparr>
        else \<lparr>msg_type = Note_on, msg_note = n, msg_velocity = 64, msg_time = t\<rparr>)"

text \<open>The body of the loop over \<open>enumerate(tokens)\<close>.\<close>

definition synth_step :: "int \<Rightarrow> synth_state \<Rightarrow> nat \<times> token \<Rightarrow> synth_state" where
  "synth_step step_size s = (\<lambda>(i, tok).
     let step_time = int i * step_size
     in if tok \<noteq> previous_token s
        then let delta_time = step_time - current_time s;
                 events = transition_events (previous_token s) tok
             in \<lparr>track = track s @ map (event_message delta_time) (enumerate 0 events),
                 current_time = step_time,
                 previous_token = tok\<rparr>
        else s)"

definition synth_init :: synth_state where
  "synth_init = \<lparr>track = [], current_time = 0, previous_token = None\<rparr>"

definition synth_loop :: "int \<Rightarrow> token list \<Rightarrow> synth_state" where
  "synth_loop step_size tokens = foldl (synth_step step_size) synth_init (enumerate 0 tokens)"

text \<open>
  The whole function, returning the track of the file it builds (creating the directory and
  saving the file are outside the model). After the loop a last \<open>note_off\<close> closes a note
  that is still sounding.
\<close>

definition generate_midi_from_tokens :: "token list \<Rightarrow> int \<Rightarrow> int \<Rightarrow> error + message list" where
  "generate_midi_from_tokens tokens ticks_per_beat subdivision =
     (case py_floordiv ticks_per_beat subdivision of
        Inl e \<Rightarrow> Inl e
      | Inr step_size \<Rightarrow>
          let s = synth_loop step_size tokens
          in case previous_token s of
               None \<Rightarrow> Inr (track s)
             | Some p \<Rightarrow>
                 let final_time = int (length tokens) * step_size;
                     delta_time = final_time - current_time s
                 in Inr (track s @
                      [\<lparr>msg_type = Note_off, msg_note = p, msg_velocity = 0,
                        msg_time = delta_time\<rparr>]))"

section \<open>\<open>extract_tokens_with_granularity\<close>\<close>

text \<open>
  The first loop: the running sum of the delta times, each message paired with its
  absolute time.
\<close>

definition absolute_events :: "message list \<Rightarrow> (int \<times> message) list" where
  "absolute_events trk =
     snd (foldl (\<lambda>(cur, events) msg. (cur + msg_time msg, events @ [(cur + msg_time msg, msg)]))
            (0, []) trk)"

text \<open>
  The dictionary \<open>active_notes\<close> (note to start time) as an association list with unique
  keys: assignment is \<open>AList.update\<close>, \<open>pop(note, None)\<close> is \<open>AList.delete\<close>.
\<close>

type_synonym active_notes = "(int \<times> int) list"

definition apply_event :: "int \<times> message \<Rightarrow> active_notes \<Rightarrow> active_notes" where
  "apply_event = (\<lambda>(event_time, msg) active.
     if msg_type msg = Note_on
     then (if 0 < msg_velocity msg
           then AList.update (msg_note msg) event_time active
           else AList.delete (msg_note msg) active)
     else if msg_type msg = Note_off
     then AList.delete (msg_note msg) active
     else active)"

text \<open>The inner \<open>while\<close> loop: the cursor \<open>event_index\<close> moves over the events at or before \<open>t\<close>.\<close>

function process_events ::
  "(int \<times> message) list \<Rightarrow> int \<Rightarrow> nat \<Rightarrow> active_notes \<Rightarrow> nat \<times> active_notes" where
  "process_events events t event_index active =
     (if event_index < length events \<and> fst (events ! event_index) \<le> t
      then process_events events t (Suc event_index) (apply_event (events ! event_index) active)
      else (event_index, active))"
  by pat_completeness auto
termination
  by (relation "measure (\<lambda>(events, t, event_index, active). length events - event_index)") auto

declare process_events.simps [simp del]

text \<open>The token of a step: the highest active note, or a rest when no note is active.\<close>

definition current_token :: "active_notes \<Rightarrow> token" where
  "current_token active = (if active \<noteq> [] then Some (Max (set (map fst active))) else None)"

text \<open>The state of the loop over the time steps: the cursor, the active notes, the tokens.\<close>

type_synonym quant_state = "nat \<times> active_notes \<times> token list"

definition quant_step :: "(int \<times> message) list \<Rightarrow> quant_state \<Rightarrow> int \<Rightarrow> quant_state" where
  "quant_step events = (\<lambda>(event_index, active, tokens) t.
     let (event_index', active') = process_events events t event_index active
     in (event_index', active', tokens @ [current_token active']))"

definition extract_tokens_with_granularity ::
  "message list \<Rightarrow> int \<Rightarrow> int \<Rightarrow> error + token list" where
  "extract_tokens_with_granularity trk ticks_per_beat subdivision =
     (case py_floordiv ticks_per_beat subdivision of
        Inl e \<Rightarrow> Inl e
      | Inr step_size \<Rightarrow>
          let events = absolute_events trk;
              final_time = (if events \<noteq> [] then fst (last events) else 0)
          in case py_range 0 (final_time + step_size) step_size of
               Inl e \<Rightarrow> Inl e
             | Inr ts \<Rightarrow> Inr (snd (snd (foldl (quant_step events) (0, [], []) ts))))"

section \<open>\<open>trim_and_convert_nones\<close> and \<open>replace_neg1_with_none\<close>\<close>

text \<open>
  The two \<open>while\<close> loops that look for the first and the last token that is not \<open>None\<close>.
  The first starts at index 0 and the second at the last index, so every index read is
  within the list.
\<close>

function find_first :: "token list \<Rightarrow> int \<Rightarrow> int" where
  "find_first tokens first =
     (if first < int (length tokens) \<and> tokens ! nat first = None
      then find_first tokens (first + 1) else first)"
  by pat_completeness auto
termination
  by (relation "measure (\<lambda>(tokens, first). nat (int (length tokens) - first))") auto

function find_last :: "token list \<Rightarrow> int \<Rightarrow> int" where
  "find_last tokens last_idx =
     (if 0 \<le> last_idx \<and> tokens ! nat last_idx = None
      then find_last tokens (last_idx - 1) else last_idx)"
  by pat_completeness auto
termination
  by (relation "measure (\<lambda>(tokens, last_idx). nat (last_idx + 1))") auto

declare find_first.simps [simp del] find_last.simps [simp del]

text \<open>The final comprehension: every \<open>None\<close> becomes \<open>-1\<close>, a note stays as it is.\<close>

definition convert_nones :: "token list \<Rightarrow> int list" where
  "convert_nones trimmed = map (\<lambda>x. case x of None \<Rightarrow> - 1 | Some v \<Rightarrow> v) trimmed"

definition trim_and_convert_nones :: "token list \<Rightarrow> int \<Rightarrow> error + int list" where
  "trim_and_convert_nones tokens subdivision =
     (if tokens = [] then Inr []
      else
        let first = find_first tokens 0;
            last_idx = find_last tokens (int (length tokens) - 1)
        in if last_idx < first then Inr []
           else case py_floordiv first subdivision of
                  Inl e \<Rightarrow> Inl e
                | Inr q1 \<Rightarrow>
                   (case py_floordiv (int (length tokens) - last_idx - 1) subdivision of
                      Inl e \<Rightarrow> Inl e
                    | Inr q2 \<Rightarrow>
                        let leading_remove = q1 * subdivision;
                            trailing_remove = q2 * subdivision;
                            new_first = leading_remove;
                            new_last = int (length tokens) - trailing_remove - 1;
                            trimmed = py_slice tokens new_first (new_last + 1)
                        in Inr (convert_nones trimmed)))"

definition replace_neg1_with_none :: "int list \<Rightarrow> token list" where
  "replace_neg1_with_none lst = map (\<lambda>x. if x = - 1 then None else Some x) lst"

section \<open>Auxiliary definitions for the proofs\<close>

text \<open>
  The events of a track by structural recursion, starting from the running time \<open>c\<close>;
  \<open>absolute_events_timeline\<close> shows that the loop of the source computes the same list.
\<close>

fun timeline_from :: "int \<Rightarrow> message list \<Rightarrow> (int \<times> message) list" where
  "timeline_from c [] = []"
| "timeline_from c (m # ms) = (c + msg_time m, m) # timeline_from (c + msg_time m) ms"

text \<open>The sum of the delta times of a list of messages.\<close>

definition total_time :: "message list \<Rightarrow> int" where
  "total_time ms = sum_list (map msg_time ms)"

text \<open>Applying a batch of events, in order, to the active notes.\<close>

definition apply_events :: "active_notes \<Rightarrow> (int \<times> message) list \<Rightarrow> active_notes" where
  "apply_events active es = foldl (\<lambda>a e. apply_event e a) active es"

text \<open>
  The token sampled at time \<open>t\<close>: the events are applied from the first one up to, and not
  including, the first one later than \<open>t\<close>.
\<close>

definition token_at :: "(int \<times> message) list \<Rightarrow> int \<Rightarrow> token" where
  "token_at events t = current_token (apply_events [] (takeWhile (\<lambda>e. fst e \<le> t) events))"

text \<open>The time of the last event, 0 for no events.\<close>

definition final_time :: "(int \<times> message) list \<Rightarrow> int" where
  "final_time events = (if events \<noteq> [] then fst (last events) else 0)"

text \<open>The lengths of the runs of rests at the start and at the end of a token list.\<close>

definition leading_rests :: "token list \<Rightarrow> nat" where
  "leading_rests tokens = length (takeWhile (\<lambda>x. x = None) tokens)"

definition trailing_rests :: "token list \<Rightarrow> nat" where
  "trailing_rests tokens = length (takeWhile (\<lambda>x. x = None) (rev tokens))"

text \<open>The two kinds of message the synthesizer emits.\<close>

definition note_on_msg :: "int \<Rightarrow> int \<Rightarrow> message" where
  "note_on_msg n t = \<lparr>msg_type = Note_on, msg_note = n, msg_velocity = 64, msg_time = t\<rparr>"

definition note_off_msg :: "int \<Rightarrow> int \<Rightarrow> message" where
  "note_off_msg n t = \<lparr>msg_type = Note_off, msg_note = n, msg_velocity = 0, msg_time = t\<rparr>"

text \<open>A token list without the rests at its end.\<close>

definition strip_trailing_rests :: "token list \<Rightarrow> token list" where
  "strip_trailing_rests tokens = rev (dropWhile (\<lambda>x. x = None) (rev tokens))"



section \<open>The quantizer as a function of the sample time\<close>

lemma absolute_events_foldl:
  "foldl (\<lambda>(cur, events) msg. (cur + msg_time msg, events @ [(cur + msg_time msg, msg)])) (c, acc) trk
     = (c + total_time trk, acc @ timeline_from c trk)"
  by (induction trk arbitrary: c acc) (simp_all add: total_time_def)

lemma absolute_events_timeline: "absolute_events trk = timeline_from 0 trk"
  by (simp add: absolute_events_def absolute_events_foldl)

lemma timeline_from_append:
  "timeline_from c (a @ b) = timeline_from c a @ timeline_from (c + total_time a) b"
  by (induction a arbitrary: c) (simp_all add: total_time_def add.assoc)

lemma length_timeline_from [simp]: "length (timeline_from c ms) = length ms"
  by (induction ms arbitrary: c) simp_all

lemma process_events_drop:
  "i \<le> length evs \<Longrightarrow>
   process_events evs t i act =
     (i + length (takeWhile (\<lambda>e. fst e \<le> t) (drop i evs)),
      apply_events act (takeWhile (\<lambda>e. fst e \<le> t) (drop i evs)))"
proof (induction evs t i act rule: process_events.induct)
  case (1 events t i active)
  show ?case
  proof (cases "i < length events \<and> fst (events ! i) \<le> t")
    case True
    then have d: "drop i events = events ! i # drop (Suc i) events"
      by (simp add: Cons_nth_drop_Suc)
    from True have "Suc i \<le> length events" by simp
    with 1 True have "process_events events t (Suc i) (apply_event (events ! i) active) =
       (Suc i + length (takeWhile (\<lambda>e. fst e \<le> t) (drop (Suc i) events)),
        apply_events (apply_event (events ! i) active) (takeWhile (\<lambda>e. fst e \<le> t) (drop (Suc i) events)))"
      by blast
    with True d show ?thesis
      by (subst process_events.simps) (simp add: apply_events_def)
  next
    case False
    show ?thesis
    proof (cases "i < length events")
      case True
      with False have "\<not> fst (events ! i) \<le> t" by simp
      moreover from True have "drop i events = events ! i # drop (Suc i) events"
        by (simp add: Cons_nth_drop_Suc)
      ultimately show ?thesis using False
        by (subst process_events.simps) (simp add: apply_events_def)
    next
      case False
      with 1 show ?thesis
        by (subst process_events.simps) (simp add: apply_events_def)
    qed
  qed
qed

lemma takeWhile_split_take:
  assumes "i \<le> length evs" "\<forall>e \<in> set (take i evs). P e"
  shows "takeWhile P evs = take i evs @ takeWhile P (drop i evs)"
  using assms(2) takeWhile_append2 [of "take i evs" P "drop i evs"] by simp

lemma apply_events_append:
  "apply_events a (xs @ ys) = apply_events (apply_events a xs) ys"
  by (simp add: apply_events_def)

lemma process_events_prefix:
  assumes "i \<le> length evs" "\<forall>e \<in> set (take i evs). fst e \<le> t"
      and "act = apply_events [] (take i evs)"
  shows "process_events evs t i act =
           (length (takeWhile (\<lambda>e. fst e \<le> t) evs),
            apply_events [] (takeWhile (\<lambda>e. fst e \<le> t) evs))"
proof -
  have "takeWhile (\<lambda>e. fst e \<le> t) evs = take i evs @ takeWhile (\<lambda>e. fst e \<le> t) (drop i evs)"
    using assms(1,2) by (rule takeWhile_split_take)
  then show ?thesis
    using assms by (simp add: process_events_drop apply_events_append)
qed

lemma quant_loop_tokens:
  assumes "i \<le> length evs" "\<forall>e \<in> set (take i evs). fst e \<le> b"
      and "act = apply_events [] (take i evs)" "sorted (b # ts)"
  shows "snd (snd (foldl (quant_step evs) (i, act, toks) ts)) = toks @ map (token_at evs) ts"
  using assms
proof (induction ts arbitrary: i act toks b)
  case Nil
  then show ?case by simp
next
  case (Cons t ts)
  let ?P = "\<lambda>e. fst e \<le> t"
  let ?i = "length (takeWhile ?P evs)"
  let ?a = "apply_events [] (takeWhile ?P evs)"
  from Cons.prems have bt: "b \<le> t" by simp
  with Cons.prems have le: "\<forall>e \<in> set (take i evs). fst e \<le> t" by fastforce
  have pe: "process_events evs t i act = (?i, ?a)"
    using Cons.prems(1) le Cons.prems(3) by (rule process_events_prefix)
  have tk: "take ?i evs = takeWhile ?P evs"
    by (rule takeWhile_eq_take [symmetric])
  have 1: "?i \<le> length evs" by (rule length_takeWhile_le)
  have 2: "\<forall>e \<in> set (take ?i evs). fst e \<le> t"
    unfolding tk by (auto dest: set_takeWhileD)
  have 3: "?a = apply_events [] (take ?i evs)" unfolding tk ..
  from Cons.prems have 4: "sorted (t # ts)" by simp
  have "snd (snd (foldl (quant_step evs) (?i, ?a, toks @ [current_token ?a]) ts))
          = (toks @ [current_token ?a]) @ map (token_at evs) ts"
    using 1 2 3 4 by (rule Cons.IH)
  then show ?case
    by (simp add: quant_step_def pe token_at_def)
qed

lemma sorted_steps: "0 \<le> s \<Longrightarrow> sorted (map (\<lambda>k. int k * s) [0..<n])"
  by (simp add: sorted_iff_nth_mono mult_right_mono)

lemma py_range_steps:
  assumes "0 < s"
  shows "py_range 0 (f + s) s = Inr (map (\<lambda>k. int k * s) [0..<nat ((f + s - 1) div s + 1)])"
proof -
  have "(f + s - 0 + s - 1) div s = ((f + s - 1) + 1 * s) div s" by (simp add: algebra_simps)
  also have "\<dots> = (f + s - 1) div s + 1" using assms by (subst div_mult_self1) simp_all
  finally show ?thesis using assms by (simp add: py_range_def)
qed

lemma extract_tokens_char:
  assumes "0 < ticks_per_beat div subdivision"
  shows "extract_tokens_with_granularity trk ticks_per_beat subdivision =
           Inr (map (\<lambda>k. token_at (absolute_events trk) (int k * (ticks_per_beat div subdivision)))
                  [0..<nat ((final_time (absolute_events trk) + ticks_per_beat div subdivision - 1)
                            div (ticks_per_beat div subdivision) + 1)])"
proof -
  let ?s = "ticks_per_beat div subdivision"
  let ?evs = "absolute_events trk"
  let ?n = "nat ((final_time ?evs + ?s - 1) div ?s + 1)"
  let ?ts = "map (\<lambda>k. int k * ?s) [0..<?n]"
  from assms have nz: "subdivision \<noteq> 0" by (cases "subdivision = 0") simp_all
  have r: "py_range 0 (final_time ?evs + ?s) ?s = Inr ?ts"
    using assms by (rule py_range_steps)
  have s1: "sorted ?ts"
    using assms by (intro sorted_steps) simp
  have s2: "\<forall>x \<in> set ?ts. 0 \<le> x"
    using assms by auto
  have srt: "sorted (0 # ?ts)"
    using s1 s2 sorted_simps(2) [of 0 ?ts] by blast
  have "snd (snd (foldl (quant_step ?evs) (0, [], []) ?ts)) = [] @ map (token_at ?evs) ?ts"
  proof (rule quant_loop_tokens [where b = 0])
    show "sorted (0 # ?ts)" by (rule srt)
  qed (simp_all add: apply_events_def)
  then show ?thesis
    using nz r
    by (simp add: extract_tokens_with_granularity_def py_floordiv_def Let_def final_time_def
        comp_def)
qed

section \<open>Empty inputs\<close>






section \<open>The sentinel coding\<close>

text \<open>
  Claim C8: on tokens that are a rest or a note other than the sentinel \<open>-1\<close> (every valid
  note number is one), coding the rests as \<open>-1\<close> (\<open>convert_nones\<close>, the last line of
  \<open>trim_and_convert_nones\<close>) and decoding with \<open>replace_neg1_with_none\<close> gives the tokens
  back: a rest goes to \<open>-1\<close> and back to a rest, a note passes both ways unchanged.
\<close>

theorem sentinel_round_trip:
  "Some (- 1) \<notin> set tokens \<Longrightarrow> replace_neg1_with_none (convert_nones tokens) = tokens"
  by (induction tokens)
     (auto simp: replace_neg1_with_none_def convert_nones_def split: option.splits)

theorem sentinel_round_trip_witness:
  "Some (- 1) \<notin> set [None, Some 60, None, Some 0, Some (127::int)] \<and>
   convert_nones [None, Some 60, None, Some 0, Some 127] = [- 1, 60, - 1, 0, 127] \<and>
   replace_neg1_with_none (convert_nones [None, Some 60, None, Some 0, Some 127])
     = [None, Some 60, None, Some 0, Some 127]"
  using sentinel_round_trip [of "[None, Some 60, None, Some 0, Some 127]"]
  by (simp add: convert_nones_def)

section \<open>The concrete scenario\<close>

text \<open>
  Claim C9: at 480 ticks per beat and subdivision 6 the step is 80 ticks. The track
  \<open>note_on(60)\<close> at time 0, \<open>note_off(60)\<close> at time 160 is sampled at 0, 80 and 160 and
  gives the grid \<open>[60, 60, rest]\<close>; that grid is synthesized to \<open>note_on(60)\<close> with delta
  time 0 followed by \<open>note_off(60)\<close> with delta time 160.
\<close>

theorem concrete_scenario:
  "extract_tokens_with_granularity
     [\<lparr>msg_type = Note_on, msg_note = 60, msg_velocity = 64, msg_time = 0\<rparr>,
      \<lparr>msg_type = Note_off, msg_note = 60, msg_velocity = 0, msg_time = 160\<rparr>] 480 6
     = Inr [Some 60, Some 60, None]
   \<and> generate_midi_from_tokens [Some 60, Some 60, None] 480 6
     = Inr [\<lparr>msg_type = Note_on, msg_note = 60, msg_velocity = 64, msg_time = 0\<rparr>,
            \<lparr>msg_type = Note_off, msg_note = 60, msg_velocity = 0, msg_time = 160\<rparr>]"
  by code_simp

section \<open>The trimmer\<close>

lemma find_first_drop:
  "0 \<le> i \<Longrightarrow> find_first tokens i = i + int (leading_rests (drop (nat i) tokens))"
proof (induction tokens i rule: find_first.induct)
  case (1 tokens i)
  show ?case
  proof (cases "i < int (length tokens)")
    case True
    with 1 have d: "drop (nat i) tokens = tokens ! nat i # drop (Suc (nat i)) tokens"
      by (simp add: Cons_nth_drop_Suc)
    show ?thesis
    proof (cases "tokens ! nat i = None")
      case isNone: True
      from 1 have s: "Suc (nat i) = nat (i + 1)" by simp
      from 1 True isNone have "find_first tokens (i + 1) = (i + 1) + int (leading_rests (drop (nat (i + 1)) tokens))"
        by simp
      with True isNone d s show ?thesis
        by (subst find_first.simps) (simp add: leading_rests_def)
    next
      case False
      with d show ?thesis
        by (subst find_first.simps) (auto simp: leading_rests_def)
    qed
  next
    case False
    with 1 show ?thesis
      by (subst find_first.simps) (simp add: leading_rests_def)
  qed
qed

lemma find_last_take:
  "j < int (length tokens) \<Longrightarrow>
   find_last tokens j = j - int (trailing_rests (take (nat (j + 1)) tokens))"
proof (induction tokens j rule: find_last.induct)
  case (1 tokens j)
  show ?case
  proof (cases "0 \<le> j")
    case True
    with 1 have t: "take (nat (j + 1)) tokens = take (nat j) tokens @ [tokens ! nat j]"
      by (simp add: nat_add_distrib take_Suc_conv_app_nth)
    show ?thesis
    proof (cases "tokens ! nat j = None")
      case isNone: True
      from True 1 isNone
      have "find_last tokens (j - 1) = (j - 1) - int (trailing_rests (take (nat (j - 1 + 1)) tokens))"
        by simp
      with True isNone t show ?thesis
        by (subst find_last.simps) (simp add: trailing_rests_def)
    next
      case False
      with t show ?thesis
        by (subst find_last.simps) (auto simp: trailing_rests_def)
    qed
  next
    case False
    then show ?thesis
      by (subst find_last.simps) (simp add: trailing_rests_def)
  qed
qed

lemma find_first_0: "find_first tokens 0 = int (leading_rests tokens)"
  using find_first_drop [of 0 tokens] by simp

lemma find_last_end: "find_last tokens (int (length tokens) - 1) = int (length tokens) - 1 - int (trailing_rests tokens)"
  using find_last_take [of "int (length tokens) - 1" tokens] by simp

lemma rests_all: "\<forall>t \<in> set tokens. t = None \<Longrightarrow> leading_rests tokens = length tokens \<and> trailing_rests tokens = length tokens"
  by (simp add: leading_rests_def trailing_rests_def takeWhile_eq_all_conv [THEN iffD2])

lemma length_takeWhile_stop:
  "\<not> P x \<Longrightarrow> length (takeWhile P (as @ x # bs)) \<le> length as"
  by (simp add: takeWhile_append length_takeWhile_le)

lemma rests_some:
  assumes "Some p \<in> set tokens"
  shows "leading_rests tokens + trailing_rests tokens < length tokens"
proof -
  from assms obtain as bs where sp: "tokens = as @ Some p # bs"
    by (auto dest: split_list)
  have 1: "leading_rests tokens \<le> length as"
    unfolding leading_rests_def sp by (rule length_takeWhile_stop) simp
  have "rev tokens = rev bs @ Some p # rev as"
    by (simp add: sp)
  then have "trailing_rests tokens \<le> length (rev bs)"
    unfolding trailing_rests_def by (simp only: length_takeWhile_stop option.simps not_False_eq_True)
  with 1 show ?thesis by (simp add: sp)
qed

lemma py_slice_inner:
  assumes "0 \<le> a" "a \<le> b" "b \<le> int (length xs)"
  shows "py_slice xs a b = take (nat b - nat a) (drop (nat a) xs)"
  using assms by (simp add: py_slice_def Let_def min_def nat_diff_distrib)

lemma floor_block:
  assumes "0 < (d::int)" "0 \<le> a"
  shows "0 \<le> a div d * d" and "a div d * d \<le> a"
proof -
  have "a div d * d + a mod d = a" by simp
  moreover have "0 \<le> a mod d" using assms(1) by simp
  ultimately show "a div d * d \<le> a" by linarith
  show "0 \<le> a div d * d" using assms by (simp add: pos_imp_zdiv_nonneg_iff)
qed

text \<open>
  Claim C7: for tokens with at least one note and a positive subdivision, the trimmer drops
  \<open>(first // subdivision) * subdivision\<close> tokens from the front, where \<open>first\<close> is the index
  of the first note (the number of leading rests), drops the count computed in the same way
  from the number of trailing rests from the back, and maps every rest that remains to
  \<open>-1\<close> while a note stays as it is. The witness is the scenario of the claim: five leading
  rests, three trailing rests and subdivision 4 give \<open>[-1, 60, -1, 62, -1, -1, -1]\<close>.
\<close>

theorem trim_blocks:
  assumes "Some p \<in> set tokens" and "0 < subdivision"
  shows "trim_and_convert_nones tokens subdivision =
           Inr (map (\<lambda>x. case x of None \<Rightarrow> - 1 | Some v \<Rightarrow> v)
                  (take (length tokens
                          - nat (int (leading_rests tokens) div subdivision * subdivision)
                          - nat (int (trailing_rests tokens) div subdivision * subdivision))
                     (drop (nat (int (leading_rests tokens) div subdivision * subdivision))
                        tokens)))"
proof -
  let ?n = "int (length tokens)"
  let ?f = "int (leading_rests tokens)"
  let ?t = "int (trailing_rests tokens)"
  let ?lr = "?f div subdivision * subdivision"
  let ?tr = "?t div subdivision * subdivision"
  from assms(1) have ne: "tokens \<noteq> []" by auto
  from assms(1) have lt: "?f + ?t < ?n" using rests_some [of p tokens] by simp
  have lr: "0 \<le> ?lr" "?lr \<le> ?f"
    using assms(2) by (simp_all add: floor_block)
  have tr: "0 \<le> ?tr" "?tr \<le> ?t"
    using assms(2) by (simp_all add: floor_block)
  have sl: "py_slice tokens ?lr (?n - ?tr - 1 + 1) = take (nat (?n - ?tr) - nat ?lr) (drop (nat ?lr) tokens)"
    using lr tr lt by (subst py_slice_inner) simp_all
  have nn: "nat (?n - ?tr) - nat ?lr = length tokens - nat ?lr - nat ?tr"
    using lr tr lt by simp
  have fl: "\<not> (?n - 1 - ?t < ?f)" using lt by simp
  have nz: "subdivision \<noteq> 0" using assms(2) by simp
  have e: "?n - (?n - 1 - ?t) - 1 = ?t" by simp
  show ?thesis
    unfolding trim_and_convert_nones_def find_first_0 find_last_end Let_def py_floordiv_def
      convert_nones_def e
    using ne fl nz sl nn by simp
qed

theorem trim_blocks_witness:
  "Some 60 \<in> set [None, None, None, None, None, Some 60, None, Some 62, None, None, None] \<and>
   (0::int) < 4 \<and>
   trim_and_convert_nones
     [None, None, None, None, None, Some 60, None, Some 62, None, None, None] 4
     = Inr [- 1, 60, - 1, 62, - 1, - 1, - 1]"
  using trim_blocks [of 60 "[None, None, None, None, None, Some 60, None, Some 62, None, None, None]" 4]
  by (simp add: leading_rests_def trailing_rests_def)

section \<open>Degenerate resolutions\<close>

lemma trim_zero_division:
  assumes "Some p \<in> set tokens"
  shows "trim_and_convert_nones tokens 0 = Inl ZeroDivisionError"
proof -
  from assms have ne: "tokens \<noteq> []" by auto
  from assms have "int (leading_rests tokens) + int (trailing_rests tokens) < int (length tokens)"
    using rests_some [of p tokens] by simp
  then have fl: "\<not> (int (length tokens) - 1 - int (trailing_rests tokens) < int (leading_rests tokens))"
    by simp
  show ?thesis
    unfolding trim_and_convert_nones_def find_first_0 find_last_end Let_def py_floordiv_def
    using ne fl by simp
qed

lemma trim_no_note:
  assumes "\<forall>p. Some p \<notin> set tokens"
  shows "trim_and_convert_nones tokens subdivision = Inr []"
proof (cases "tokens = []")
  case True
  then show ?thesis by (simp add: trim_and_convert_nones_def)
next
  case False
  from assms have "\<forall>t \<in> set tokens. t = None"
    by (metis option.exhaust)
  then have "leading_rests tokens = length tokens" "trailing_rests tokens = length tokens"
    by (simp_all add: rests_all)
  then show ?thesis
    unfolding trim_and_convert_nones_def find_first_0 find_last_end Let_def
    using False by simp
qed

lemma trim_nonzero:
  "subdivision \<noteq> 0 \<Longrightarrow> \<exists>out. trim_and_convert_nones tokens subdivision = Inr out"
  by (simp add: trim_and_convert_nones_def Let_def py_floordiv_def)

lemma extract_zero_division:
  "extract_tokens_with_granularity trk ticks_per_beat 0 = Inl ZeroDivisionError"
  by (simp add: extract_tokens_with_granularity_def py_floordiv_def)

lemma extract_zero_step:
  "subdivision \<noteq> 0 \<Longrightarrow> ticks_per_beat div subdivision = 0 \<Longrightarrow>
   extract_tokens_with_granularity trk ticks_per_beat subdivision = Inl ValueError"
  by (simp add: extract_tokens_with_granularity_def py_floordiv_def py_range_def Let_def)

lemma extract_nonzero_step:
  "ticks_per_beat div subdivision \<noteq> 0 \<Longrightarrow>
   \<exists>toks. extract_tokens_with_granularity trk ticks_per_beat subdivision = Inr toks"
  by (cases "subdivision = 0")
     (simp_all add: extract_tokens_with_granularity_def py_floordiv_def py_range_def Let_def)

text \<open>
  Claim C4, as stated, fails: nothing in the code checks the subdivision. A negative
  subdivision gives a negative step, over which \<open>range\<close> counts down, and the quantizer
  returns a grid; the trimmer returns its result as well.
\<close>

theorem negative_subdivision_counterexample:
  "(- 6 :: int) \<le> 0 \<and> extract_tokens_with_granularity [] 480 (- 6) = Inr [None] \<and>
   (- 1 :: int) \<le> 0 \<and> trim_and_convert_nones [Some 60] (- 1) = Inr [60]"
  by code_simp

text \<open>
  Claim C4, amended: the only failures are those of Python itself. The quantizer raises
  \<open>ZeroDivisionError\<close> for subdivision 0, on its first line, and \<open>ValueError\<close> (from
  \<open>range\<close>) when the subdivision is not 0 and the step size is 0; for every other
  resolution, a negative subdivision included, it returns a grid. The trimmer raises
  \<open>ZeroDivisionError\<close> for subdivision 0 when the tokens contain a note, and returns a
  result for every other subdivision and for tokens without a note.
\<close>

theorem resolution_failures:
  "(subdivision = 0 \<longrightarrow>
      extract_tokens_with_granularity trk ticks_per_beat subdivision = Inl ZeroDivisionError) \<and>
   (subdivision \<noteq> 0 \<and> ticks_per_beat div subdivision = 0 \<longrightarrow>
      extract_tokens_with_granularity trk ticks_per_beat subdivision = Inl ValueError) \<and>
   (ticks_per_beat div subdivision \<noteq> 0 \<longrightarrow>
      (\<exists>toks. extract_tokens_with_granularity trk ticks_per_beat subdivision = Inr toks)) \<and>
   (subdivision = 0 \<and> (\<exists>p. Some p \<in> set tokens) \<longrightarrow>
      trim_and_convert_nones tokens subdivision = Inl ZeroDivisionError) \<and>
   (subdivision \<noteq> 0 \<or> (\<forall>p. Some p \<notin> set tokens) \<longrightarrow>
      (\<exists>out. trim_and_convert_nones tokens subdivision = Inr out))"
  using extract_zero_division [of trk ticks_per_beat]
    extract_zero_step [of subdivision ticks_per_beat trk]
    extract_nonzero_step [of ticks_per_beat subdivision trk]
    trim_zero_division [of _ tokens] trim_no_note [of tokens subdivision]
    trim_nonzero [of subdivision tokens]
  by blast

theorem resolution_failures_witness:
  "extract_tokens_with_granularity [] 480 0 = Inl ZeroDivisionError \<and>
   (481 :: int) \<noteq> 0 \<and> (480 :: int) div 481 = 0 \<and>
   extract_tokens_with_granularity [] 480 481 = Inl ValueError \<and>
   (480 :: int) div (- 6) \<noteq> 0 \<and>
   (\<exists>toks. extract_tokens_with_granularity [] 480 (- 6) = Inr toks) \<and>
   (\<exists>p. Some p \<in> set [Some (60::int)]) \<and>
   trim_and_convert_nones [Some 60] 0 = Inl ZeroDivisionError \<and>
   (- 1 :: int) \<noteq> 0 \<and> (\<exists>out. trim_and_convert_nones [Some 60] (- 1) = Inr out) \<and>
   (\<forall>p. Some p \<notin> set [None :: token]) \<and>
   (\<exists>out. trim_and_convert_nones [None] 0 = Inr out)"
  using resolution_failures [of 0 "[]" 480 "[Some 60]"]
    resolution_failures [of 481 "[]" 480 "[Some 60]"]
    resolution_failures [of "- 6" "[]" 480 "[Some 60]"]
    resolution_failures [of "- 1" "[]" 480 "[Some 60]"]
    resolution_failures [of 0 "[]" 480 "[None]"]
  by simp

section \<open>The synthesizer loop\<close>

lemma synth_loop_Nil [simp]: "synth_loop s [] = synth_init"
  by (simp add: synth_loop_def)








lemma total_time_append [simp]: "total_time (a @ b) = total_time a + total_time b"
  by (simp add: total_time_def)

lemma total_time_simps [simp]:
  "total_time [] = 0" "total_time (m # ms) = msg_time m + total_time ms"
  by (simp_all add: total_time_def)

lemma msg_simps [simp]:
  "msg_time (note_on_msg n t) = t" "msg_time (note_off_msg n t) = t"
  "msg_type (note_on_msg n t) = Note_on" "msg_type (note_off_msg n t) = Note_off"
  "msg_note (note_on_msg n t) = n" "msg_note (note_off_msg n t) = n"
  "msg_velocity (note_on_msg n t) = 64" "msg_velocity (note_off_msg n t) = 0"
  by (simp_all add: note_on_msg_def note_off_msg_def)


lemma strip_snoc_None [simp]: "strip_trailing_rests (g @ [None]) = strip_trailing_rests g"
  by (simp add: strip_trailing_rests_def)

lemma strip_snoc_Some [simp]: "strip_trailing_rests (g @ [Some p]) = g @ [Some p]"
  by (simp add: strip_trailing_rests_def)














section \<open>The token of a sample step\<close>

lemma timeline_lower:
  "\<forall>m \<in> set trk. 0 \<le> msg_time m \<Longrightarrow> \<forall>e \<in> set (timeline_from c trk). c \<le> fst e"
proof (induction trk arbitrary: c)
  case Nil
  show ?case by simp
next
  case (Cons m ms)
  then have "\<forall>e \<in> set (timeline_from (c + msg_time m) ms). c + msg_time m \<le> fst e"
    by simp
  moreover from Cons.prems have "0 \<le> msg_time m" by simp
  ultimately show ?case by fastforce
qed

lemma timeline_sorted:
  "\<forall>m \<in> set trk. 0 \<le> msg_time m \<Longrightarrow> sorted (map fst (timeline_from c trk))"
proof (induction trk arbitrary: c)
  case Nil
  show ?case by simp
next
  case (Cons m ms)
  then have "sorted (map fst (timeline_from (c + msg_time m) ms))" by simp
  moreover from Cons.prems
  have "\<forall>e \<in> set (timeline_from (c + msg_time m) ms). c + msg_time m \<le> fst e"
    by (intro timeline_lower) simp
  ultimately show ?case by simp
qed




section \<open>Quantizing a synthesized track\<close>

lemma last_timeline:
  "trk \<noteq> [] \<Longrightarrow> fst (last (timeline_from c trk)) = c + total_time trk"
proof (induction trk arbitrary: c)
  case Nil
  then show ?case by simp
next
  case (Cons m ms)
  show ?case
  proof (cases "ms = []")
    case True
    then show ?thesis by simp
  next
    case False
    then have "timeline_from (c + msg_time m) ms \<noteq> []" by (cases ms) simp_all
    with False Cons.IH [of "c + msg_time m"] show ?thesis by (simp add: add.assoc)
  qed
qed

lemma final_time_timeline: "final_time (timeline_from 0 trk) = total_time trk"
proof (cases "trk = []")
  case True
  then show ?thesis by (simp add: final_time_def)
next
  case False
  then have "timeline_from 0 trk \<noteq> []" by (cases trk) simp_all
  with False show ?thesis by (simp add: final_time_def last_timeline)
qed




lemma apply_events_simps [simp]:
  "apply_events a [] = a"
  "apply_events a (e # es) = apply_events (apply_event e a) es"
  by (simp_all add: apply_events_def)

lemma apply_synth_events [simp]:
  "apply_event (t, note_on_msg n d) a = AList.update n t a"
  "apply_event (t, note_off_msg n d) a = AList.delete n a"
  by (simp_all add: apply_event_def)




















section \<open>Notes that fall between two samples\<close>

lemma keys_delete: "fst ` set (AList.delete k al) = fst ` set al - {k}"
  by (induction al) auto

lemma keys_apply_event_cong:
  "fst ` set a = fst ` set b \<Longrightarrow> fst ` set (apply_event e a) = fst ` set (apply_event e b)"
  by (cases e) (simp add: apply_event_def dom_update keys_delete)

lemma keys_apply_event_mod:
  "fst ` set a - {p} = fst ` set b - {p} \<Longrightarrow>
   fst ` set (apply_event e a) - {p} = fst ` set (apply_event e b) - {p}"
  by (cases e) (auto simp: apply_event_def dom_update keys_delete)

lemma keys_apply_events_cong:
  "fst ` set a = fst ` set b \<Longrightarrow> fst ` set (apply_events a es) = fst ` set (apply_events b es)"
proof (induction es arbitrary: a b)
  case Nil
  then show ?case by simp
next
  case (Cons e es)
  from Cons.prems have "fst ` set (apply_event e a) = fst ` set (apply_event e b)"
    by (rule keys_apply_event_cong)
  then have "fst ` set (apply_events (apply_event e a) es)
      = fst ` set (apply_events (apply_event e b) es)"
    by (rule Cons.IH)
  then show ?case by simp
qed

lemma keys_apply_events_mod:
  "fst ` set a - {p} = fst ` set b - {p} \<Longrightarrow>
   fst ` set (apply_events a es) - {p} = fst ` set (apply_events b es) - {p}"
proof (induction es arbitrary: a b)
  case Nil
  then show ?case by simp
next
  case (Cons e es)
  from Cons.prems have "fst ` set (apply_event e a) - {p} = fst ` set (apply_event e b) - {p}"
    by (rule keys_apply_event_mod)
  then have "fst ` set (apply_events (apply_event e a) es) - {p}
      = fst ` set (apply_events (apply_event e b) es) - {p}"
    by (rule Cons.IH)
  then show ?case by simp
qed

lemma current_token_keys:
  "current_token a = (if fst ` set a = {} then None else Some (Max (fst ` set a)))"
  by (simp add: current_token_def)

lemma current_token_cong:
  "fst ` set a = fst ` set b \<Longrightarrow> current_token a = current_token b"
  by (simp only: current_token_keys)

lemma current_token_in_keys: "current_token a = Some q \<Longrightarrow> q \<in> fst ` set a"
proof -
  assume a: "current_token a = Some q"
  then have ne: "fst ` set a \<noteq> {}" by (auto simp: current_token_keys split: if_splits)
  with a have "q = Max (fst ` set a)" by (simp add: current_token_keys)
  moreover have "Max (fst ` set a) \<in> fst ` set a" using ne by (intro Max_in) simp_all
  ultimately show ?thesis by simp
qed

lemma keys_apply_event_source:
  "q \<in> fst ` set (apply_event e a) \<Longrightarrow>
   q \<in> fst ` set a \<or>
   (msg_type (snd e) = Note_on \<and> 0 < msg_velocity (snd e) \<and> msg_note (snd e) = q)"
  by (cases e) (auto simp: apply_event_def dom_update keys_delete split: if_splits)

lemma keys_apply_events_source:
  "q \<in> fst ` set (apply_events a es) \<Longrightarrow>
   q \<in> fst ` set a \<or>
   (\<exists>e \<in> set es. msg_type (snd e) = Note_on \<and> 0 < msg_velocity (snd e) \<and> msg_note (snd e) = q)"
proof (induction es arbitrary: a)
  case Nil
  then show ?case by simp
next
  case (Cons e es)
  from Cons.prems have "q \<in> fst ` set (apply_events (apply_event e a) es)" by simp
  from Cons.IH [OF this] keys_apply_event_source [of q e a] show ?case by auto
qed

lemma snd_timeline: "snd ` set (timeline_from c trk) = set trk"
  by (induction trk arbitrary: c) auto

lemma token_at_source:
  assumes "token_at (timeline_from c trk) t = Some q"
  shows "\<exists>m \<in> set trk. msg_type m = Note_on \<and> 0 < msg_velocity m \<and> msg_note m = q"
proof -
  let ?es = "takeWhile (\<lambda>e. fst e \<le> t) (timeline_from c trk)"
  from assms have "q \<in> fst ` set (apply_events [] ?es)"
    unfolding token_at_def by (rule current_token_in_keys)
  then obtain e where e: "e \<in> set ?es" "msg_type (snd e) = Note_on"
    "0 < msg_velocity (snd e)" "msg_note (snd e) = q"
    using keys_apply_events_source [of q "[]" ?es] by auto
  from e(1) have "e \<in> set (timeline_from c trk)" by (auto dest: set_takeWhileD)
  then have "snd e \<in> set trk" using snd_timeline [of c trk] by blast
  with e(2-4) show ?thesis by blast
qed

lemma takeWhile_stop:
  "\<not> P x \<Longrightarrow> takeWhile P (xs @ x # ys) = takeWhile P xs"
  by (induction xs) simp_all

lemma apply_event_close:
  assumes "msg_type m = Note_off \<or> (msg_type m = Note_on \<and> msg_velocity m \<le> 0)"
  shows "apply_event (t, m) a = AList.delete (msg_note m) a"
  using assms by (auto simp: apply_event_def)

lemma apply_event_open:
  assumes "msg_type m = Note_on" "0 < msg_velocity m"
  shows "apply_event (t, m) a = AList.update (msg_note m) t a"
  using assms by (simp add: apply_event_def)

lemma apply_event_other: "apply_event (t, m\<lparr>msg_type := Other\<rparr>) a = a"
  by (simp add: apply_event_def)

lemma dropped_keys:
  assumes "msg_type m_on = Note_on" "0 < msg_velocity m_on"
    and "msg_note m_off = msg_note m_on"
    and "msg_type m_off = Note_off \<or> (msg_type m_off = Note_on \<and> msg_velocity m_off \<le> 0)"
  shows "fst ` set (apply_events a0 ((t1, m_on) # M @ [(t2, m_off)]))
       = fst ` set (apply_events a0 ((t1, m_on\<lparr>msg_type := Other\<rparr>) # M @ [(t2, m_off)]))"
proof -
  let ?p = "msg_note m_on"
  have "fst ` set (AList.update ?p t1 a0) - {?p} = fst ` set a0 - {?p}"
    by (auto simp: dom_update)
  then have "fst ` set (apply_events (AList.update ?p t1 a0) M) - {?p}
      = fst ` set (apply_events a0 M) - {?p}"
    by (rule keys_apply_events_mod)
  then have "fst ` set (AList.delete ?p (apply_events (AList.update ?p t1 a0) M))
      = fst ` set (AList.delete ?p (apply_events a0 M))"
    by (simp only: keys_delete)
  then show ?thesis
    using assms
    by (simp add: apply_events_append apply_event_open apply_event_close apply_event_other)
qed

lemma takeWhile_append_all:
  "\<forall>x \<in> set xs. P x \<Longrightarrow> takeWhile P (xs @ ys) = xs @ takeWhile P ys"
  by (induction xs) simp_all

lemma sorted_before:
  "sorted (map fst (xs @ y # ys)) \<Longrightarrow> \<forall>x \<in> set xs. fst x \<le> fst y"
  by (auto simp: sorted_append)

lemma dropped_token_at:
  assumes nonneg: "\<forall>m \<in> set (pre @ [m_on] @ mid @ [m_off] @ post). 0 \<le> msg_time m"
    and on: "msg_type m_on = Note_on" "0 < msg_velocity m_on"
    and off: "msg_note m_off = msg_note m_on"
      "msg_type m_off = Note_off \<or> (msg_type m_off = Note_on \<and> msg_velocity m_off \<le> 0)"
    and t: "\<not> (total_time (pre @ [m_on]) \<le> t \<and> t < total_time (pre @ [m_on] @ mid @ [m_off]))"
  shows "token_at (timeline_from 0 (pre @ [m_on] @ mid @ [m_off] @ post)) t
       = token_at (timeline_from 0 (pre @ [m_on\<lparr>msg_type := Other\<rparr>] @ mid @ [m_off] @ post)) t"
proof -
  let ?o' = "m_on\<lparr>msg_type := Other\<rparr>"
  let ?t1 = "total_time pre + msg_time m_on"
  let ?t2 = "?t1 + total_time mid + msg_time m_off"
  let ?P = "timeline_from 0 pre"
  let ?M = "timeline_from ?t1 mid"
  let ?Q = "timeline_from ?t2 post"
  let ?ok = "\<lambda>e :: int \<times> message. fst e \<le> t"
  have A: "timeline_from 0 (pre @ [m_on] @ mid @ [m_off] @ post)
      = ?P @ (?t1, m_on) # ?M @ (?t2, m_off) # ?Q"
    by (simp add: timeline_from_append add.assoc)
  have B: "timeline_from 0 (pre @ [?o'] @ mid @ [m_off] @ post)
      = ?P @ (?t1, ?o') # ?M @ (?t2, m_off) # ?Q"
    by (simp add: timeline_from_append add.assoc)
  show ?thesis
  proof (cases "t < ?t1")
    case True
    have a: "takeWhile ?ok (?P @ (?t1, m_on) # ?M @ (?t2, m_off) # ?Q) = takeWhile ?ok ?P"
      by (rule takeWhile_stop) (use True in simp)
    have b: "takeWhile ?ok (?P @ (?t1, ?o') # ?M @ (?t2, m_off) # ?Q) = takeWhile ?ok ?P"
      by (rule takeWhile_stop) (use True in simp)
    show ?thesis
      unfolding token_at_def A B a b ..
  next
    case False
    with t have t2: "?t2 \<le> t" by (simp add: add.assoc)
    have "sorted (map fst (timeline_from 0 (pre @ [m_on] @ mid @ [m_off] @ post)))"
      using nonneg by (rule timeline_sorted)
    then have "sorted (map fst ((?P @ (?t1, m_on) # ?M) @ (?t2, m_off) # ?Q))"
      unfolding A by simp
    then have "\<forall>x \<in> set (?P @ (?t1, m_on) # ?M). fst x \<le> fst (?t2, m_off)"
      by (rule sorted_before)
    then have "\<forall>x \<in> set (?P @ (?t1, m_on) # ?M). fst x \<le> ?t2"
      by (simp only: fst_conv)
    then have bd: "\<forall>x \<in> set ?P. fst x \<le> ?t2" "?t1 \<le> ?t2" "\<forall>x \<in> set ?M. fst x \<le> ?t2"
      by simp_all
    have le: "\<forall>x \<in> set ?P. fst x \<le> t" "?t1 \<le> t" "\<forall>x \<in> set ?M. fst x \<le> t"
      using bd(1) t2 apply fastforce
      using bd(2) t2 apply linarith
      using bd(3) t2 apply fastforce
      done
    let ?XA = "?P @ (?t1, m_on) # ?M @ [(?t2, m_off)]"
    let ?XB = "?P @ (?t1, ?o') # ?M @ [(?t2, m_off)]"
    have allA: "\<forall>x \<in> set ?XA. ?ok x" using le t2 by auto
    have allB: "\<forall>x \<in> set ?XB. ?ok x" using le t2 by auto
    have twA: "takeWhile ?ok (?XA @ ?Q) = ?XA @ takeWhile ?ok ?Q"
      using allA by (rule takeWhile_append_all)
    have twB: "takeWhile ?ok (?XB @ ?Q) = ?XB @ takeWhile ?ok ?Q"
      using allB by (rule takeWhile_append_all)
    have "fst ` set (apply_events (apply_events [] ?P) ((?t1, m_on) # ?M @ [(?t2, m_off)]))
        = fst ` set (apply_events (apply_events [] ?P) ((?t1, ?o') # ?M @ [(?t2, m_off)]))"
      using on off by (rule dropped_keys)
    then have "fst ` set (apply_events [] ?XA) = fst ` set (apply_events [] ?XB)"
      by (simp only: apply_events_append)
    then have "fst ` set (apply_events (apply_events [] ?XA) (takeWhile ?ok ?Q))
        = fst ` set (apply_events (apply_events [] ?XB) (takeWhile ?ok ?Q))"
      by (rule keys_apply_events_cong)
    then have "current_token (apply_events [] (?XA @ takeWhile ?ok ?Q))
        = current_token (apply_events [] (?XB @ takeWhile ?ok ?Q))"
      unfolding apply_events_append by (rule current_token_cong)
    then have "current_token (apply_events [] (takeWhile ?ok (?XA @ ?Q)))
        = current_token (apply_events [] (takeWhile ?ok (?XB @ ?Q)))"
      unfolding twA twB .
    then show ?thesis
      unfolding token_at_def A B by simp
  qed
qed

text \<open>
  Claim C10: take a track with non-negative delta times and a positive step size, a
  \<open>note_on\<close> (velocity above 0) at absolute time \<open>on_time\<close> and a later message that
  closes the same note (a \<open>note_off\<close>, or a \<open>note_on\<close> with velocity 0) at \<open>off_time\<close>, such
  that no sample time \<open>k * step_size\<close> lies in \<open>[on_time, off_time)\<close>. Both events are then
  consumed by the same run of the inner loop, and the quantized grid is the one of the track
  in which the \<open>note_on\<close> is replaced by a message the quantizer ignores: the note leaves
  no trace. In particular, when no other \<open>note_on\<close> of the track starts that note number,
  it occurs in no token.
\<close>

theorem short_note_dropped:
  assumes step: "0 < ticks_per_beat div subdivision"
    and nonneg: "\<forall>m \<in> set (pre @ [m_on] @ mid @ [m_off] @ post). 0 \<le> msg_time m"
    and on: "msg_type m_on = Note_on" "0 < msg_velocity m_on"
    and off: "msg_note m_off = msg_note m_on"
      "msg_type m_off = Note_off \<or> (msg_type m_off = Note_on \<and> msg_velocity m_off \<le> 0)"
    and gap: "\<forall>k::nat. \<not> (total_time (pre @ [m_on]) \<le> int k * (ticks_per_beat div subdivision) \<and>
                 int k * (ticks_per_beat div subdivision)
                   < total_time (pre @ [m_on] @ mid @ [m_off]))"
  shows "\<exists>toks.
     extract_tokens_with_granularity (pre @ [m_on] @ mid @ [m_off] @ post)
       ticks_per_beat subdivision = Inr toks \<and>
     extract_tokens_with_granularity (pre @ [m_on\<lparr>msg_type := Other\<rparr>] @ mid @ [m_off] @ post)
       ticks_per_beat subdivision = Inr toks \<and>
     ((\<forall>m \<in> set (pre @ mid @ post).
          \<not> (msg_type m = Note_on \<and> 0 < msg_velocity m \<and> msg_note m = msg_note m_on))
        \<longrightarrow> Some (msg_note m_on) \<notin> set toks)"
proof -
  let ?s = "ticks_per_beat div subdivision"
  let ?A = "pre @ [m_on] @ mid @ [m_off] @ post"
  let ?B = "pre @ [m_on\<lparr>msg_type := Other\<rparr>] @ mid @ [m_off] @ post"
  let ?n = "nat ((total_time ?A + ?s - 1) div ?s + 1)"
  define toks where "toks = map (\<lambda>k. token_at (timeline_from 0 ?B) (int k * ?s)) [0..<?n]"
  have tt: "total_time ?B = total_time ?A" by simp
  have B: "extract_tokens_with_granularity ?B ticks_per_beat subdivision = Inr toks"
    using extract_tokens_char [OF step, of ?B]
    unfolding absolute_events_timeline final_time_timeline tt toks_def .
  have "token_at (timeline_from 0 ?A) (int k * ?s) = token_at (timeline_from 0 ?B) (int k * ?s)"
    for k :: nat
    using nonneg on off gap [rule_format, of k] by (rule dropped_token_at)
  then have "map (\<lambda>k. token_at (timeline_from 0 ?A) (int k * ?s)) [0..<?n] = toks"
    unfolding toks_def by simp
  then have A: "extract_tokens_with_granularity ?A ticks_per_beat subdivision = Inr toks"
    using extract_tokens_char [OF step, of ?A]
    unfolding absolute_events_timeline final_time_timeline by simp
  have C: "Some (msg_note m_on) \<notin> set toks"
    if only: "\<forall>m \<in> set (pre @ mid @ post).
          \<not> (msg_type m = Note_on \<and> 0 < msg_velocity m \<and> msg_note m = msg_note m_on)"
  proof
    assume "Some (msg_note m_on) \<in> set toks"
    then obtain k where "token_at (timeline_from 0 ?B) (int k * ?s) = Some (msg_note m_on)"
      unfolding toks_def by auto
    then obtain m where m: "m \<in> set ?B" "msg_type m = Note_on" "0 < msg_velocity m"
      "msg_note m = msg_note m_on"
      using token_at_source by blast
    from m(1) have "m \<in> set (pre @ mid @ post) \<or> m = m_on\<lparr>msg_type := Other\<rparr> \<or> m = m_off"
      by auto
    then show False
    proof (elim disjE)
      assume "m \<in> set (pre @ mid @ post)"
      with only m(2-4) show False by blast
    next
      assume "m = m_on\<lparr>msg_type := Other\<rparr>"
      with m(2) show False by simp
    next
      assume "m = m_off"
      with m(2,3) off(2) show False by auto
    qed
  qed
  show ?thesis
    by (rule exI [of _ toks]) (intro conjI A B impI C)
qed

theorem short_note_dropped_witness:
  "(0::int) < 480 div 6 \<and>
   list_all (\<lambda>m. 0 \<le> msg_time m)
     [\<lparr>msg_type = Note_on, msg_note = 60, msg_velocity = 64, msg_time = 10\<rparr>,
      \<lparr>msg_type = Note_off, msg_note = 60, msg_velocity = 0, msg_time = 50\<rparr>,
      \<lparr>msg_type = Note_on, msg_note = 62, msg_velocity = 64, msg_time = 30\<rparr>,
      \<lparr>msg_type = Note_off, msg_note = 62, msg_velocity = 0, msg_time = 100\<rparr>] \<and>
   (\<forall>k::nat. \<not> (10 \<le> int k * (480 div 6) \<and> int k * (480 div 6) < 60)) \<and>
   extract_tokens_with_granularity
     [\<lparr>msg_type = Note_on, msg_note = 60, msg_velocity = 64, msg_time = 10\<rparr>,
      \<lparr>msg_type = Note_off, msg_note = 60, msg_velocity = 0, msg_time = 50\<rparr>,
      \<lparr>msg_type = Note_on, msg_note = 62, msg_velocity = 64, msg_time = 30\<rparr>,
      \<lparr>msg_type = Note_off, msg_note = 62, msg_velocity = 0, msg_time = 100\<rparr>] 480 6
     = Inr [None, None, Some 62, None] \<and>
   extract_tokens_with_granularity
     [\<lparr>msg_type = Other, msg_note = 60, msg_velocity = 64, msg_time = 10\<rparr>,
      \<lparr>msg_type = Note_off, msg_note = 60, msg_velocity = 0, msg_time = 50\<rparr>,
      \<lparr>msg_type = Note_on, msg_note = 62, msg_velocity = 64, msg_time = 30\<rparr>,
      \<lparr>msg_type = Note_off, msg_note = 62, msg_velocity = 0, msg_time = 100\<rparr>] 480 6
     = Inr [None, None, Some 62, None] \<and>
   Some 60 \<notin> set [None, None, Some (62::int), None]"
proof -
  let ?on = "\<lparr>msg_type = Note_on, msg_note = 60, msg_velocity = 64, msg_time = 10\<rparr>"
  let ?off = "\<lparr>msg_type = Note_off, msg_note = 60, msg_velocity = 0, msg_time = 50\<rparr>"
  let ?post = "[\<lparr>msg_type = Note_on, msg_note = 62, msg_velocity = 64, msg_time = 30\<rparr>,
      \<lparr>msg_type = Note_off, msg_note = 62, msg_velocity = 0, msg_time = 100\<rparr>]"
  have h1: "(0::int) < 480 div 6" by simp
  have h2: "\<forall>m \<in> set ([] @ [?on] @ [] @ [?off] @ ?post). 0 \<le> msg_time m" by simp
  have h3: "msg_type ?on = Note_on" "0 < msg_velocity ?on" "msg_note ?off = msg_note ?on"
    "msg_type ?off = Note_off \<or> (msg_type ?off = Note_on \<and> msg_velocity ?off \<le> 0)"
    by simp_all
  have g: "\<forall>k::nat. \<not> (10 \<le> int k * (480 div 6) \<and> int k * (480 div 6) < 60)"
    by simp presburger
  then have h4: "\<forall>k::nat. \<not> (total_time ([] @ [?on]) \<le> int k * (480 div 6) \<and>
                 int k * (480 div 6) < total_time ([] @ [?on] @ [] @ [?off]))"
    by simp
  have h5: "\<forall>m \<in> set ([] @ [] @ ?post).
          \<not> (msg_type m = Note_on \<and> 0 < msg_velocity m \<and> msg_note m = msg_note ?on)"
    by simp
  from short_note_dropped [OF h1 h2 h3 h4]
  obtain toks where t:
    "extract_tokens_with_granularity ([] @ [?on] @ [] @ [?off] @ ?post) 480 6 = Inr toks"
    "extract_tokens_with_granularity ([] @ [?on\<lparr>msg_type := Other\<rparr>] @ [] @ [?off] @ ?post) 480 6
       = Inr toks"
    "(\<forall>m \<in> set ([] @ [] @ ?post).
          \<not> (msg_type m = Note_on \<and> 0 < msg_velocity m \<and> msg_note m = msg_note ?on))
        \<longrightarrow> Some (msg_note ?on) \<notin> set toks"
    by blast
  have v: "extract_tokens_with_granularity ([] @ [?on] @ [] @ [?off] @ ?post) 480 6
      = Inr [None, None, Some 62, None]"
    by code_simp
  with t(1) have eq: "toks = [None, None, Some 62, None]" by simp
  from t(3) h5 have "Some (msg_note ?on) \<notin> set toks" by blast
  then have c: "Some 60 \<notin> set [None, None, Some (62::int), None]"
    unfolding eq by simp
  have a: "extract_tokens_with_granularity [?on, ?off,
      \<lparr>msg_type = Note_on, msg_note = 62, msg_velocity = 64, msg_time = 30\<rparr>,
      \<lparr>msg_type = Note_off, msg_note = 62, msg_velocity = 0, msg_time = 100\<rparr>] 480 6
      = Inr [None, None, Some 62, None]"
    using t(1) unfolding eq by simp
  have b: "extract_tokens_with_granularity
     [\<lparr>msg_type = Other, msg_note = 60, msg_velocity = 64, msg_time = 10\<rparr>, ?off,
      \<lparr>msg_type = Note_on, msg_note = 62, msg_velocity = 64, msg_time = 30\<rparr>,
      \<lparr>msg_type = Note_off, msg_note = 62, msg_velocity = 0, msg_time = 100\<rparr>] 480 6
      = Inr [None, None, Some 62, None]"
    using t(2) unfolding eq by simp
  have l: "list_all (\<lambda>m. 0 \<le> msg_time m) [?on, ?off,
      \<lparr>msg_type = Note_on, msg_note = 62, msg_velocity = 64, msg_time = 30\<rparr>,
      \<lparr>msg_type = Note_off, msg_note = 62, msg_velocity = 0, msg_time = 100\<rparr>]"
    by simp
  from h1 l g a b c show ?thesis by (intro conjI)
qed

end
